theory Spec2Isabelle
  imports Main "HOL-Library.DAList"
begin

section \<open>The in-memory cache of modules/cache.go\<close>

text \<open>
  The cache is a Go map from string keys to items, each item a value with a Unix
  timestamp in seconds (0 for no expiration), a channel that stops the cleanup goroutine,
  and a read/write mutex. The operations are modelled sequentially: each one takes the
  cache and returns the cache it leaves behind, and every reading of \<open>time.Now()\<close> is an
  argument of the operation that makes it. These functions give a call that runs from
  its start to its end with no other call in between. The mutex makes each critical
  section one step; the process model further below runs the calls of several goroutines
  one critical section at a time, so that \<open>Get\<close>, which reads the map under the read
  lock and deletes an expired key under the write lock afterwards, is two steps there.
  A cache is one that \<open>NewCache\<close> has made, with its map and its channel allocated.
\<close>

subsection \<open>Time\<close>

text \<open>
  A \<open>time.Time\<close> is the wall-clock instant as a count of nanoseconds since the Unix
  epoch, a \<open>time.Duration\<close> a count of nanoseconds (an int64 in Go; \<open>Time.Add\<close> adds it
  exactly). \<open>Time.Unix\<close> is the number of whole seconds since the epoch: Go keeps the
  nanosecond part of an instant in \<open>[0, 999999999]\<close>, so the seconds are rounded down,
  as \<open>div\<close> on \<open>int\<close> does.
\<close>

type_synonym Time = int
type_synonym Duration = int

definition Nanosecond :: Duration where
  "Nanosecond = 1"

definition Millisecond :: Duration where
  "Millisecond = 1000000 * Nanosecond"

definition Second :: Duration where
  "Second = 1000 * Millisecond"

definition Add :: "Time \<Rightarrow> Duration \<Rightarrow> Time" where
  "Add t d = t + d"

definition Unix :: "Time \<Rightarrow> int" where
  "Unix t = t div 1000000000"

subsection \<open>Data\<close>

text \<open>
  \<open>interface{}\<close> holds either \<open>nil\<close> or a value of some type; the cache never looks
  inside it.
\<close>

datatype 'v interface = nil | Iface 'v

record 'v CacheItem =
  Value :: "'v interface"
  Expiration :: int

text \<open>
  Nothing is ever sent on \<open>stopCleanup\<close>; the channel is either open or closed.
\<close>

datatype chan = Open | Closed

text \<open>
  The Go map is a list of key/item pairs with distinct keys. The order of the list
  stands for the order in which \<open>range\<close> visits the map, which Go leaves unspecified.
\<close>

record 'v Cache =
  items :: "(string, 'v CacheItem) alist"
  stopCleanup :: chan

subsection \<open>Operations\<close>

text \<open>
  \<open>NewCache\<close> allocates the map and the channel; the goroutine it starts is part of
  the process state below (\<open>World\<close>).
\<close>

definition NewCache :: "'v Cache" where
  "NewCache = \<lparr>items = DAList.empty, stopCleanup = Open\<rparr>"

text \<open>
  \<open>Set(key, value, ttl...)\<close>: the variadic \<open>ttl\<close> is the list of the durations passed;
  only the first one is read.
\<close>

definition Set :: "'v Cache \<Rightarrow> Time \<Rightarrow> string \<Rightarrow> 'v interface \<Rightarrow> Duration list \<Rightarrow> 'v Cache" where
  "Set c now key val ttl =
     (let expiration = (case ttl of
                          [] \<Rightarrow> 0
                        | d # _ \<Rightarrow> if d > 0 then Unix (Add now d) else 0)
      in c\<lparr>items := DAList.update key \<lparr>Value = val, Expiration = expiration\<rparr> (items c)\<rparr>)"

definition Delete :: "'v Cache \<Rightarrow> string \<Rightarrow> 'v Cache" where
  "Delete c key = c\<lparr>items := DAList.delete key (items c)\<rparr>"

text \<open>
  \<open>Get\<close> returns the cache it leaves, the value and the found flag.
\<close>

definition Get :: "'v Cache \<Rightarrow> Time \<Rightarrow> string \<Rightarrow> 'v Cache \<times> 'v interface \<times> bool" where
  "Get c t key =
     (let now = Unix t in
      case DAList.lookup (items c) key of
        None \<Rightarrow> (c, nil, False)
      | Some item \<Rightarrow>
          if Expiration item > 0 \<and> now \<ge> Expiration item
          then (Delete c key, nil, False)
          else (c, Value item, True))"

text \<open>
  The first critical section of \<open>Get\<close> and the test after it: whether the call has
  found an expired item, and so goes on to call \<open>Delete\<close> once it has released the
  read lock.
\<close>

definition Get_expired :: "'v Cache \<Rightarrow> Time \<Rightarrow> string \<Rightarrow> bool" where
  "Get_expired c t key =
     (let now = Unix t in
      case DAList.lookup (items c) key of
        None \<Rightarrow> False
      | Some item \<Rightarrow> Expiration item > 0 \<and> now \<ge> Expiration item)"

definition Clear :: "'v Cache \<Rightarrow> 'v Cache" where
  "Clear c = c\<lparr>items := DAList.empty\<rparr>"

text \<open>
  \<open>Keys\<close>: the loop over the map appends each key to the slice.
\<close>

fun appendKeys :: "(string \<times> 'v CacheItem) list \<Rightarrow> string list \<Rightarrow> string list" where
  "appendKeys [] keys = keys"
| "appendKeys ((key, item) # rest) keys = appendKeys rest (keys @ [key])"

definition Keys :: "'v Cache \<Rightarrow> string list" where
  "Keys c = appendKeys (DAList.impl_of (items c)) []"

text \<open>
  \<open>deleteExpired\<close> reads the clock, then runs two loops: the first ranges over the
  map and appends the expired keys to \<open>expiredKeys\<close>, the second ranges over
  \<open>expiredKeys\<close> and deletes each key from the map.
\<close>

fun collectExpired :: "int \<Rightarrow> (string \<times> 'v CacheItem) list \<Rightarrow> string list \<Rightarrow> string list" where
  "collectExpired now [] expiredKeys = expiredKeys"
| "collectExpired now ((key, item) # rest) expiredKeys =
     collectExpired now rest
       (if Expiration item > 0 \<and> now \<ge> Expiration item then expiredKeys @ [key]
        else expiredKeys)"

fun deleteKeys :: "string list \<Rightarrow> (string, 'v CacheItem) alist \<Rightarrow> (string, 'v CacheItem) alist" where
  "deleteKeys [] m = m"
| "deleteKeys (key # rest) m = deleteKeys rest (DAList.delete key m)"

definition deleteExpired :: "'v Cache \<Rightarrow> Time \<Rightarrow> 'v Cache" where
  "deleteExpired c t =
     (let now = Unix t;
          expiredKeys = collectExpired now (DAList.impl_of (items c)) []
      in c\<lparr>items := deleteKeys expiredKeys (items c)\<rparr>)"

text \<open>
  \<open>Close\<close> closes the channel. Go's \<open>close\<close> panics on a channel that is closed
  already.
\<close>

datatype panic = CloseOfClosedChannel

definition close_chan :: "chan \<Rightarrow> panic + chan" where
  "close_chan ch = (case ch of Open \<Rightarrow> Inr Closed | Closed \<Rightarrow> Inl CloseOfClosedChannel)"

definition Close :: "'v Cache \<Rightarrow> panic + 'v Cache" where
  "Close c = (case close_chan (stopCleanup c) of
                Inl p \<Rightarrow> Inl p
              | Inr ch \<Rightarrow> Inr (c\<lparr>stopCleanup := ch\<rparr>))"

subsection \<open>The cleanup goroutine and the callers\<close>

text \<open>
  \<open>startCleanup\<close> loops over a \<open>select\<close> with two cases: a tick of the ticker, on
  which it calls \<open>deleteExpired\<close>, and a receive from \<open>stopCleanup\<close>, on which it
  returns. A receive from a channel on which nothing is sent can proceed only once the
  channel is closed. When both cases can proceed Go picks one of them at random (the
  argument \<open>pick\<close>); when none can, the goroutine stays blocked.
\<close>

datatype select_case = TickerC | StopCleanup

definition selectCase :: "bool \<Rightarrow> chan \<Rightarrow> bool \<Rightarrow> select_case option" where
  "selectCase tick ch pick =
     (if tick \<and> ch = Closed then Some (if pick then TickerC else StopCleanup)
      else if tick then Some TickerC
      else if ch = Closed then Some StopCleanup
      else None)"

text \<open>
  The process: the cache, whether the goroutine is still in its loop, and the keys of
  the calls of \<open>Get\<close> that have read an expired item and released the read lock, and
  have not called \<open>Delete\<close> yet.
\<close>

record 'v World =
  cache :: "'v Cache"
  cleanup :: bool
  deleting :: "string list"

definition NewWorld :: "'v World" where
  "NewWorld = \<lparr>cache = NewCache, cleanup = True, deleting = []\<rparr>"

text \<open>
  The goroutine \<open>startCleanup\<close>, one evaluation of its \<open>select\<close> at a time: \<open>tick\<close>
  says whether a tick is waiting in the ticker's channel, \<open>t\<close> is the clock
  \<open>deleteExpired\<close> would read. Once it has returned it does nothing more.
\<close>

definition startCleanup :: "bool \<Rightarrow> bool \<Rightarrow> Time \<Rightarrow> 'v World \<Rightarrow> 'v World" where
  "startCleanup tick pick t w =
     (if \<not> cleanup w then w
      else case selectCase tick (stopCleanup (cache w)) pick of
             None \<Rightarrow> w
           | Some TickerC \<Rightarrow> w\<lparr>cache := deleteExpired (cache w) t\<rparr>
           | Some StopCleanup \<Rightarrow> w\<lparr>cleanup := False\<rparr>)"

text \<open>
  What happens in the process, one critical section at a time: a call of \<open>Set\<close>,
  \<open>Delete\<close>, \<open>Clear\<close>, \<open>Keys\<close> or \<open>Close\<close> by some caller; the read of a call of
  \<open>Get\<close> (\<open>GetRead\<close>) and, when that read has found an expired item, the \<open>Delete\<close>
  the same call makes later (\<open>GetDelete\<close>), with whatever other goroutines do in
  between; or one evaluation of the goroutine's \<open>select\<close>.
\<close>

datatype 'v event =
    CallSet Time string "'v interface" "Duration list"
  | GetRead Time string
  | GetDelete string
  | CallDelete string
  | CallClear
  | CallKeys
  | CallClose
  | Select bool bool Time

fun step :: "'v event \<Rightarrow> 'v World \<Rightarrow> panic + 'v World" where
  "step (CallSet t key val ttl) w = Inr (w\<lparr>cache := Set (cache w) t key val ttl\<rparr>)"
| "step (GetRead t key) w =
     Inr (if Get_expired (cache w) t key then w\<lparr>deleting := key # deleting w\<rparr> else w)"
| "step (GetDelete key) w =
     Inr (if key \<in> set (deleting w)
          then w\<lparr>cache := Delete (cache w) key, deleting := remove1 key (deleting w)\<rparr>
          else w)"
| "step (CallDelete key) w = Inr (w\<lparr>cache := Delete (cache w) key\<rparr>)"
| "step CallClear w = Inr (w\<lparr>cache := Clear (cache w)\<rparr>)"
| "step CallKeys w = Inr w"
| "step CallClose w =
     (case Close (cache w) of Inl p \<Rightarrow> Inl p | Inr c \<Rightarrow> Inr (w\<lparr>cache := c\<rparr>))"
| "step (Select tick pick t) w = Inr (startCleanup tick pick t w)"

fun run :: "'v event list \<Rightarrow> 'v World \<Rightarrow> panic + 'v World" where
  "run [] w = Inr w"
| "run (e # es) w = (case step e w of Inl p \<Rightarrow> Inl p | Inr w' \<Rightarrow> run es w')"

text \<open>
  The calls that remove or replace the item of a key: a Delete or a Set of that key, and
  Clear.
\<close>

fun removes :: "string \<Rightarrow> 'v event \<Rightarrow> bool" where
  "removes k (CallSet t key val ttl) = (key = k)"
| "removes k (CallDelete key) = (key = k)"
| "removes k CallClear = True"
| "removes k _ = False"

text \<open>
  The events of the goroutine.
\<close>

fun isSelect :: "'v event \<Rightarrow> bool" where
  "isSelect (Select tick pick t) = True"
| "isSelect _ = False"

section \<open>Properties\<close>

subsection \<open>The loops and the clock\<close>

lemma appendKeys_eq: "appendKeys xs keys = keys @ map fst xs"
  by (induction xs arbitrary: keys) auto

lemma collectExpired_eq:
  "collectExpired now xs acc =
     acc @ map fst (filter (\<lambda>(key, item). Expiration item > 0 \<and> now \<ge> Expiration item) xs)"
proof (induction xs arbitrary: acc)
  case Nil
  then show ?case by simp
next
  case (Cons x xs)
  obtain key item where x: "x = (key, item)" by (cases x)
  show ?case unfolding x by (simp add: Cons.IH)
qed

lemma lookup_deleteKeys:
  "DAList.lookup (deleteKeys ks m) k = (if k \<in> set ks then None else DAList.lookup m k)"
  by (induction ks arbitrary: m) auto

lemma impl_of_deleteKeys:
  "DAList.impl_of (deleteKeys ks m) = filter (\<lambda>(k, item). k \<notin> set ks) (DAList.impl_of m)"
proof (induction ks arbitrary: m)
  case Nil
  then show ?case by simp
next
  case (Cons k ks)
  show ?case
    by (simp add: Cons.IH delete.rep_eq AList.delete_eq) (rule filter_cong, auto)
qed

lemma stopCleanup_deleteExpired: "stopCleanup (deleteExpired c t) = stopCleanup c"
  by (simp add: deleteExpired_def Let_def)

lemma keys_lookup: "k \<in> fst ` set (DAList.impl_of m) \<longleftrightarrow> DAList.lookup m k \<noteq> None"
  by (simp add: lookup.rep_eq map_of_eq_None_iff)

lemma Keys_eq: "Keys c = map fst (DAList.impl_of (items c))"
  by (simp add: Keys_def appendKeys_eq)

lemma Unix_mono: "s \<le> t \<Longrightarrow> Unix s \<le> Unix t"
  by (simp add: Unix_def zdiv_mono1)

lemma Second_eq: "Second = 1000000000"
  by (simp add: Second_def Millisecond_def Nanosecond_def)

lemma Unix_Add_Second: "Unix (Add t Second) = Unix t + 1"
  unfolding Unix_def Add_def Second_eq by simp

lemma Unix_bracket: "Unix t * Second \<le> t \<and> t < (Unix t + 1) * Second"
proof -
  define q where "q = t div 1000000000"
  define r where "r = t mod 1000000000"
  have "t = q * 1000000000 + r"
    by (simp add: q_def r_def)
  moreover have "0 \<le> r" "r < 1000000000"
    by (simp_all add: r_def)
  ultimately have "q * 1000000000 \<le> t \<and> t < (q + 1) * 1000000000"
    by (simp add: algebra_simps)
  then show ?thesis
    by (simp add: Unix_def Second_eq q_def)
qed

lemma collectExpired_set:
  "set (collectExpired now (DAList.impl_of m) []) =
     {k. \<exists>item. DAList.lookup m k = Some item \<and> 0 < Expiration item \<and> Expiration item \<le> now}"
proof -
  have "k \<in> set (collectExpired now (DAList.impl_of m) []) \<longleftrightarrow>
          (\<exists>item. (k, item) \<in> set (DAList.impl_of m) \<and> 0 < Expiration item \<and> Expiration item \<le> now)"
    for k
    by (force simp: collectExpired_eq)
  moreover have "(k, item) \<in> set (DAList.impl_of m) \<longleftrightarrow> DAList.lookup m k = Some item" for k item
    by (simp add: lookup.rep_eq)
  ultimately show ?thesis
    by blast
qed

lemma lookup_deleteExpired:
  "DAList.lookup (items (deleteExpired c t)) k =
     (case DAList.lookup (items c) k of
        None \<Rightarrow> None
      | Some item \<Rightarrow> if 0 < Expiration item \<and> Expiration item \<le> Unix t then None else Some item)"
proof -
  have "DAList.lookup (items (deleteExpired c t)) k =
          (if k \<in> set (collectExpired (Unix t) (DAList.impl_of (items c)) []) then None
           else DAList.lookup (items c) k)"
    by (simp add: deleteExpired_def Let_def lookup_deleteKeys)
  then show ?thesis
    by (simp add: collectExpired_set split: option.split)
qed

lemma Keys_Set_present:
  "DAList.lookup (items c) k \<noteq> None \<Longrightarrow> Keys (Set c t k v ttl) = Keys c"
proof -
  assume "DAList.lookup (items c) k \<noteq> None"
  then have "k \<in> fst ` set (DAList.impl_of (items c))"
    by (simp add: keys_lookup)
  then show ?thesis
    by (simp add: Keys_eq Set_def update.rep_eq update_keys)
qed

subsection \<open>Runs of the process\<close>

text \<open>
  The two steps of a call of \<open>Get\<close>, taken one after the other, do what \<open>Get\<close> does.
\<close>

lemma Get_two_steps:
  "fst (Get c t key) = (if Get_expired c t key then Delete c key else c)"
  by (simp add: Get_def Get_expired_def split: option.split)

lemma run_GetRead_GetDelete:
  "key \<notin> set (deleting w)
   \<Longrightarrow> run [GetRead t key, GetDelete key] w = Inr (w\<lparr>cache := fst (Get (cache w) t key)\<rparr>)"
  by (simp add: Get_two_steps)

text \<open>
  Once the goroutine has returned it stays so, and its events change nothing.
\<close>

lemma step_stopped: "\<not> cleanup w \<Longrightarrow> step e w = Inr w' \<Longrightarrow> \<not> cleanup w'"
  by (cases e) (auto simp: startCleanup_def split: sum.splits if_splits)

lemma run_stopped: "\<not> cleanup w \<Longrightarrow> run evs w = Inr w' \<Longrightarrow> \<not> cleanup w'"
proof (induction evs arbitrary: w)
  case Nil
  then show ?case by simp
next
  case (Cons e evs)
  from Cons.prems(2) obtain w1 where s: "step e w = Inr w1" and r: "run evs w1 = Inr w'"
    by (auto split: sum.splits)
  from step_stopped [OF Cons.prems(1) s] Cons.IH [OF _ r] show ?case
    by simp
qed

lemma run_without_selects:
  "\<not> cleanup w \<Longrightarrow> run evs w = run (filter (\<lambda>e. \<not> isSelect e) evs) w"
proof (induction evs arbitrary: w)
  case Nil
  then show ?case by simp
next
  case (Cons e evs)
  show ?case
  proof (cases "isSelect e")
    case True
    then obtain tick pick t where e: "e = Select tick pick t"
      by (cases e) simp_all
    with Cons show ?thesis
      by (simp add: startCleanup_def)
  next
    case False
    show ?thesis
    proof (cases "step e w")
      case (Inl p)
      with False show ?thesis by simp
    next
      case (Inr w1)
      from step_stopped [OF Cons.prems Inr] have "\<not> cleanup w1" .
      from Cons.IH [OF this] Inr False show ?thesis
        by simp
    qed
  qed
qed

text \<open>
  An item with expiration 0 stays through the events that are no Delete or Set of its key
  and no Clear, as long as no call of \<open>Get\<close> on its key stands between its read and
  its \<open>Delete\<close>.
\<close>

lemma lookup_startCleanup:
  "DAList.lookup (items (cache w)) k = Some item \<Longrightarrow> Expiration item = 0
   \<Longrightarrow> DAList.lookup (items (cache (startCleanup tick pick t w))) k = Some item"
  by (simp add: startCleanup_def lookup_deleteExpired split: option.splits select_case.splits)

lemma deleting_startCleanup: "deleting (startCleanup tick pick t w) = deleting w"
  by (simp add: startCleanup_def split: option.splits select_case.splits)

lemma step_keeps:
  assumes "DAList.lookup (items (cache w)) k = Some item" and "Expiration item = 0"
    and "k \<notin> set (deleting w)" and "\<not> removes k e" and "step e w = Inr w'"
  shows "DAList.lookup (items (cache w')) k = Some item \<and> k \<notin> set (deleting w')"
proof (cases e)
  case (CallSet t key val ttl)
  with assms show ?thesis by (auto simp: Set_def)
next
  case (GetRead t key)
  with assms show ?thesis by (auto simp: Get_expired_def split: if_splits)
next
  case (GetDelete key)
  with assms show ?thesis by (auto simp: Delete_def split: if_splits dest: notin_set_remove1)
next
  case (CallDelete key)
  with assms show ?thesis by (auto simp: Delete_def)
next
  case CallClear
  with assms show ?thesis by simp
next
  case CallKeys
  with assms show ?thesis by auto
next
  case CallClose
  with assms show ?thesis by (auto simp: Close_def split: sum.splits)
next
  case (Select tick pick t)
  with assms lookup_startCleanup [of w k item tick pick t] show ?thesis
    by (auto simp: deleting_startCleanup)
qed

lemma run_keeps:
  "DAList.lookup (items (cache w)) k = Some item \<Longrightarrow> Expiration item = 0
   \<Longrightarrow> k \<notin> set (deleting w) \<Longrightarrow> \<forall>e \<in> set evs. \<not> removes k e \<Longrightarrow> run evs w = Inr w'
   \<Longrightarrow> DAList.lookup (items (cache w')) k = Some item \<and> k \<notin> set (deleting w')"
proof (induction evs arbitrary: w)
  case Nil
  then show ?case by simp
next
  case (Cons e evs)
  from Cons.prems(5) obtain w1 where s: "step e w = Inr w1" and r: "run evs w1 = Inr w'"
    by (auto split: sum.splits)
  from Cons.prems(4) have e: "\<not> removes k e" and es: "\<forall>e \<in> set evs. \<not> removes k e"
    by simp_all
  from step_keeps [OF Cons.prems(1,2,3) e s]
  have "DAList.lookup (items (cache w1)) k = Some item" and "k \<notin> set (deleting w1)"
    by simp_all
  from Cons.IH [OF this(1) Cons.prems(2) this(2) es r] show ?case .
qed

subsection \<open>Get\<close>

text \<open>
  C1. For a key present in the table: if its item carries a positive expiration and the
  clock of the call, in Unix seconds, is greater than or equal to it, Get removes that item
  from the table and returns not-found; if the item is unexpired (expiration zero, or the
  clock strictly before a positive expiration), Get returns the stored value and true. For
  an absent key Get returns not-found.
\<close>

theorem Get_lazy_expiry:
  "(DAList.lookup (items c) key = Some item \<and> 0 < Expiration item \<and> Expiration item \<le> Unix t
      \<longrightarrow> items (fst (Get c t key)) = DAList.delete key (items c)
          \<and> DAList.lookup (items (fst (Get c t key))) key = None
          \<and> key \<notin> set (Keys (fst (Get c t key)))
          \<and> snd (Get c t key) = (nil, False))
   \<and> (DAList.lookup (items c) key = Some item
        \<and> (Expiration item = 0 \<or> (0 < Expiration item \<and> Unix t < Expiration item))
      \<longrightarrow> snd (Get c t key) = (Value item, True))
   \<and> (DAList.lookup (items c) key = None \<longrightarrow> snd (Get c t key) = (nil, False))"
  by (auto simp: Get_def Delete_def Let_def Keys_eq keys_lookup)

theorem Get_lazy_expiry_witness:
  "DAList.lookup (items (Set NewCache 5000000000 ''a'' (Iface (1::nat)) [2 * Second])) ''a''
     = Some \<lparr>Value = Iface 1, Expiration = 7\<rparr>
   \<and> Unix 7000000000 = 7 \<and> Unix 6999999999 = 6
   \<and> snd (Get (Set NewCache 5000000000 ''a'' (Iface (1::nat)) [2 * Second]) 7000000000 ''a'')
       = (nil, False)
   \<and> ''a'' \<notin> set (Keys (fst (Get (Set NewCache 5000000000 ''a'' (Iface (1::nat)) [2 * Second])
                             7000000000 ''a'')))
   \<and> snd (Get (Set NewCache 5000000000 ''a'' (Iface (1::nat)) [2 * Second]) 6999999999 ''a'')
       = (Iface 1, True)
   \<and> DAList.lookup (items (Set NewCache 5000000000 ''a'' (Iface (1::nat)) [2 * Second])) ''b'' = None
   \<and> snd (Get (Set NewCache 5000000000 ''a'' (Iface (1::nat)) [2 * Second]) 7000000000 ''b'')
       = (nil, False)"
proof -
  let ?c = "Set NewCache 5000000000 ''a'' (Iface (1::nat)) [2 * Second]"
  let ?item = "\<lparr>Value = Iface (1::nat), Expiration = 7\<rparr>"
  have a: "DAList.lookup (items ?c) ''a'' = Some ?item"
    by (simp add: Set_def NewCache_def Unix_def Add_def Second_def Millisecond_def Nanosecond_def)
  have b: "DAList.lookup (items ?c) ''b'' = None"
    by (simp add: Set_def NewCache_def)
  have u: "Unix 7000000000 = 7" "Unix 6999999999 = 6"
    by (simp_all add: Unix_def)
  from Get_lazy_expiry [of ?c "''a''" ?item 7000000000] a u
  have 1: "snd (Get ?c 7000000000 ''a'') = (nil, False)"
    and 2: "''a'' \<notin> set (Keys (fst (Get ?c 7000000000 ''a'')))"
    by simp_all
  from Get_lazy_expiry [of ?c "''a''" ?item 6999999999] a u
  have 3: "snd (Get ?c 6999999999 ''a'') = (Iface 1, True)"
    by simp
  from Get_lazy_expiry [of ?c "''b''" ?item 7000000000] b
  have 4: "snd (Get ?c 7000000000 ''b'') = (nil, False)"
    by simp
  from a b u 1 2 3 4 show ?thesis by simp
qed

text \<open>
  C10. For a key present with an unexpired item, Get leaves the whole cache as it was: no
  expiration is extended or reset, no value and no other item is modified.
\<close>

theorem Get_unexpired_frame:
  "DAList.lookup (items c) key = Some item
   \<Longrightarrow> Expiration item = 0 \<or> (0 < Expiration item \<and> Unix t < Expiration item)
   \<Longrightarrow> fst (Get c t key) = c \<and> snd (Get c t key) = (Value item, True)"
  by (auto simp: Get_def)

theorem Get_unexpired_frame_witness:
  "DAList.lookup (items (Set (NewCache::nat Cache) 5000000000 ''a'' (Iface 1) [2 * Second])) ''a''
     = Some \<lparr>Value = Iface 1, Expiration = 7\<rparr>
   \<and> Unix 6999999999 < 7
   \<and> fst (Get (Set (NewCache::nat Cache) 5000000000 ''a'' (Iface 1) [2 * Second]) 6999999999 ''a'')
     = Set NewCache 5000000000 ''a'' (Iface 1) [2 * Second]"
proof -
  let ?c = "Set (NewCache::nat Cache) 5000000000 ''a'' (Iface 1) [2 * Second]"
  let ?item = "\<lparr>Value = Iface (1::nat), Expiration = 7\<rparr>"
  have a: "DAList.lookup (items ?c) ''a'' = Some ?item"
    by (simp add: Set_def NewCache_def Unix_def Add_def Second_def Millisecond_def Nanosecond_def)
  have u: "Unix 6999999999 < 7"
    by (simp add: Unix_def)
  from u have b: "Expiration ?item = 0 \<or> (0 < Expiration ?item \<and> Unix 6999999999 < Expiration ?item)"
    by simp
  from Get_unexpired_frame [OF a b] a u show ?thesis by simp
qed

subsection \<open>Set\<close>

text \<open>
  C2. When the ttl is absent or not positive the stored item has expiration 0 and never
  expires: Get finds it and a sweep keeps it at every later clock. When the ttl is positive
  the stored expiration is the instant now + ttl, in the whole Unix seconds in which the
  item keeps it.
\<close>

theorem Set_expiration:
  "(ttl = [] \<or> hd ttl \<le> 0 \<longrightarrow>
      DAList.lookup (items (Set c now key val ttl)) key = Some \<lparr>Value = val, Expiration = 0\<rparr>
      \<and> (\<forall>t. snd (Get (Set c now key val ttl) t key) = (val, True))
      \<and> (\<forall>t. DAList.lookup (items (deleteExpired (Set c now key val ttl) t)) key
               = Some \<lparr>Value = val, Expiration = 0\<rparr>))
   \<and> (ttl \<noteq> [] \<and> 0 < hd ttl \<longrightarrow>
      DAList.lookup (items (Set c now key val ttl)) key
        = Some \<lparr>Value = val, Expiration = Unix (Add now (hd ttl))\<rparr>
      \<and> Unix (Add now (hd ttl)) * Second \<le> now + hd ttl
      \<and> now + hd ttl < (Unix (Add now (hd ttl)) + 1) * Second)"
proof -
  have bracket: "Unix (Add now d) * Second \<le> now + d \<and> now + d < (Unix (Add now d) + 1) * Second"
    for d
    using Unix_bracket [of "Add now d"] by (simp add: Add_def)
  show ?thesis
    by (cases ttl) (simp_all add: Set_def Get_def lookup_deleteExpired bracket)
qed

theorem Set_expiration_witness:
  "DAList.lookup (items (Set (NewCache::nat Cache) 5300000000 ''a'' (Iface 1) [])) ''a''
     = Some \<lparr>Value = Iface 1, Expiration = 0\<rparr>
   \<and> DAList.lookup (items (Set (NewCache::nat Cache) 5300000000 ''a'' (Iface 1) [- Second])) ''a''
     = Some \<lparr>Value = Iface 1, Expiration = 0\<rparr>
   \<and> snd (Get (Set (NewCache::nat Cache) 5300000000 ''a'' (Iface 1) [- Second]) 99000000000 ''a'')
     = (Iface 1, True)
   \<and> DAList.lookup (items (Set (NewCache::nat Cache) 5300000000 ''a'' (Iface 1) [2 * Second])) ''a''
     = Some \<lparr>Value = Iface 1, Expiration = 7\<rparr>"
  using Set_expiration [of "[]" "NewCache::nat Cache" 5300000000 "''a''" "Iface 1"]
    Set_expiration [of "[- Second]" "NewCache::nat Cache" 5300000000 "''a''" "Iface 1"]
    Set_expiration [of "[2 * Second]" "NewCache::nat Cache" 5300000000 "''a''" "Iface 1"]
  by (simp add: Unix_def Add_def Second_def Millisecond_def Nanosecond_def)

text \<open>
  C9. For all keys k and values v, Set(k, v) with no TTL argument followed by Get(k)
  returns (v, true), whatever the clock says at either call.
\<close>

theorem Set_Get_roundtrip:
  "Get (Set c t k v []) t' k = (Set c t k v [], v, True)"
  by (simp add: Set_def Get_def)

text \<open>
  C5. When the key already holds an item, Set replaces it: the item stored is the one Set
  stores in an empty cache (value v2, expiration from the clock and ttl2 alone: 0 when ttl2
  is absent or not positive), Get answers as it does there, the keys of the table and the
  items of the other keys are as before, and a Set followed by a Set of the same key leaves
  the cache the second Set alone leaves.
\<close>

theorem Set_overwrite:
  assumes "DAList.lookup (items c) k = Some old"
  shows "DAList.lookup (items (Set c t k v2 ttl2)) k
           = DAList.lookup (items (Set NewCache t k v2 ttl2)) k
         \<and> (ttl2 = [] \<or> hd ttl2 \<le> 0 \<longrightarrow>
              DAList.lookup (items (Set c t k v2 ttl2)) k = Some \<lparr>Value = v2, Expiration = 0\<rparr>)
         \<and> (ttl2 \<noteq> [] \<and> 0 < hd ttl2 \<longrightarrow>
              DAList.lookup (items (Set c t k v2 ttl2)) k
                = Some \<lparr>Value = v2, Expiration = Unix (Add t (hd ttl2))\<rparr>)
         \<and> (\<forall>t'. snd (Get (Set c t k v2 ttl2) t' k) = snd (Get (Set NewCache t k v2 ttl2) t' k))
         \<and> Keys (Set c t k v2 ttl2) = Keys c
         \<and> (\<forall>k'. k' \<noteq> k \<longrightarrow>
              DAList.lookup (items (Set c t k v2 ttl2)) k' = DAList.lookup (items c) k')
         \<and> Set (Set c t1 k v1 ttl1) t k v2 ttl2 = Set c t k v2 ttl2"
proof -
  have same: "DAList.lookup (items (Set c t k v2 ttl2)) k
                = DAList.lookup (items (Set NewCache t k v2 ttl2)) k"
    by (simp add: Set_def)
  have entry: "(ttl2 = [] \<or> hd ttl2 \<le> 0 \<longrightarrow>
              DAList.lookup (items (Set c t k v2 ttl2)) k = Some \<lparr>Value = v2, Expiration = 0\<rparr>)
         \<and> (ttl2 \<noteq> [] \<and> 0 < hd ttl2 \<longrightarrow>
              DAList.lookup (items (Set c t k v2 ttl2)) k
                = Some \<lparr>Value = v2, Expiration = Unix (Add t (hd ttl2))\<rparr>)"
    by (cases ttl2) (simp_all add: Set_def)
  have get: "snd (Get (Set c t k v2 ttl2) t' k) = snd (Get (Set NewCache t k v2 ttl2) t' k)" for t'
    by (simp add: Get_def same split: option.split)
  have keys: "Keys (Set c t k v2 ttl2) = Keys c"
    using assms by (simp add: Keys_Set_present)
  have others: "k' \<noteq> k \<Longrightarrow>
      DAList.lookup (items (Set c t k v2 ttl2)) k' = DAList.lookup (items c) k'" for k'
    by (simp add: Set_def)
  have twice: "Set (Set c t1 k v1 ttl1) t k v2 ttl2 = Set c t k v2 ttl2"
    by (simp add: Set_def)
  from same entry get keys others twice show ?thesis
    by blast
qed

theorem Set_overwrite_witness:
  "DAList.lookup (items (Set (NewCache::nat Cache) 5000000000 ''k'' (Iface 1) [3 * Second])) ''k''
     = Some \<lparr>Value = Iface 1, Expiration = 8\<rparr>
   \<and> DAList.lookup (items (Set (Set (NewCache::nat Cache) 5000000000 ''k'' (Iface 1) [3 * Second])
                                 6000000000 ''k'' (Iface 2) [])) ''k''
     = Some \<lparr>Value = Iface 2, Expiration = 0\<rparr>
   \<and> DAList.lookup (items (Set (Set (NewCache::nat Cache) 5000000000 ''k'' (Iface 1) [3 * Second])
                                 6000000000 ''k'' (Iface 2) [4 * Second])) ''k''
     = Some \<lparr>Value = Iface 2, Expiration = 10\<rparr>
   \<and> Keys (Set (Set (NewCache::nat Cache) 5000000000 ''k'' (Iface 1) [3 * Second])
                6000000000 ''k'' (Iface 2) [4 * Second]) = [''k'']"
proof -
  let ?c = "Set (NewCache::nat Cache) 5000000000 ''k'' (Iface 1) [3 * Second]"
  let ?old = "\<lparr>Value = Iface (1::nat), Expiration = 8\<rparr>"
  have a: "DAList.lookup (items ?c) ''k'' = Some ?old"
    by (simp add: Set_def NewCache_def Unix_def Add_def Second_eq)
  have k: "Keys ?c = [''k'']"
    by (simp add: Keys_eq Set_def NewCache_def update.rep_eq empty.rep_eq)
  note w1 = Set_overwrite [OF a, of 6000000000 "Iface 2" "[]" 0 nil "[]"]
  note w2 = Set_overwrite [OF a, of 6000000000 "Iface 2" "[4 * Second]" 0 nil "[]"]
  have 1: "DAList.lookup (items (Set ?c 6000000000 ''k'' (Iface 2) [])) ''k''
             = Some \<lparr>Value = Iface 2, Expiration = 0\<rparr>"
    using w1 [THEN conjunct2, THEN conjunct1] by simp
  have "DAList.lookup (items (Set ?c 6000000000 ''k'' (Iface 2) [4 * Second])) ''k''
             = Some \<lparr>Value = Iface 2, Expiration = Unix (Add 6000000000 (hd [4 * Second]))\<rparr>"
    using w2 [THEN conjunct2, THEN conjunct2, THEN conjunct1] by (simp add: Second_eq)
  then have 2: "DAList.lookup (items (Set ?c 6000000000 ''k'' (Iface 2) [4 * Second])) ''k''
             = Some \<lparr>Value = Iface 2, Expiration = 10\<rparr>"
    by (simp add: Unix_def Add_def Second_eq)
  have 3: "Keys (Set ?c 6000000000 ''k'' (Iface 2) [4 * Second]) = [''k'']"
    using w2 [THEN conjunct2, THEN conjunct2, THEN conjunct2, THEN conjunct2, THEN conjunct1] k
    by simp
  from a 1 2 3 show ?thesis
    by (intro conjI)
qed

text \<open>
  C3, as stated: after Set(k, v, d) with a positive d, Get(k) at any time t < d after the
  Set returns (v, true). It fails for an item set with a ttl of 500 milliseconds one tenth
  into a second of the clock: 200 milliseconds later the item is gone, since the stored
  expiration is the second of the Set itself.
\<close>

theorem Set_Get_subsecond_counterexample:
  "0 < 500 * Millisecond \<and> 0 \<le> 200 * Millisecond \<and> 200 * Millisecond < 500 * Millisecond
   \<and> snd (Get (Set (NewCache::nat Cache) 1700000000100000000 ''k'' (Iface 1) [500 * Millisecond])
             (Add 1700000000100000000 (200 * Millisecond)) ''k'') = (nil, False)"
  by (simp add: Set_def Get_def NewCache_def Delete_def Unix_def Add_def Millisecond_def
      Nanosecond_def)

text \<open>
  C3, amended. For a clock past the first second of the Unix epoch and a positive d: a
  Get at time t after Set(k, v, d) returns (v, true) exactly when the Unix second of the
  Get is strictly before the Unix second of the instant of the Set plus d. So it returns
  not-found at every t >= d, and (v, true) at every t with t + 1 second <= d.
\<close>

theorem Set_Get_expiry_boundary:
  assumes "0 < Unix s" and "0 < d"
  shows "snd (Get (Set c s k v (d # rest)) (Add s t) k)
           = (if Unix (Add s t) < Unix (Add s d) then (v, True) else (nil, False))
         \<and> (d \<le> t \<longrightarrow> snd (Get (Set c s k v (d # rest)) (Add s t) k) = (nil, False))
         \<and> (t + Second \<le> d \<longrightarrow> snd (Get (Set c s k v (d # rest)) (Add s t) k) = (v, True))"
proof -
  have pos: "0 < Unix (Add s d)"
    using assms Unix_mono [of s "Add s d"] by (simp add: Add_def)
  have eq: "snd (Get (Set c s k v (d # rest)) (Add s t) k)
              = (if Unix (Add s t) < Unix (Add s d) then (v, True) else (nil, False))"
    using assms pos by (simp add: Set_def Get_def)
  have late: "d \<le> t \<Longrightarrow> \<not> Unix (Add s t) < Unix (Add s d)"
    using Unix_mono [of "Add s d" "Add s t"] by (simp add: Add_def)
  have early: "Unix (Add s t) < Unix (Add s d)" if "t + Second \<le> d"
  proof -
    have "Unix (Add s t) + 1 = Unix (Add (Add s t) Second)"
      by (simp add: Unix_Add_Second)
    also have "\<dots> \<le> Unix (Add s d)"
      using that by (intro Unix_mono) (simp add: Add_def)
    finally show ?thesis by simp
  qed
  from eq late early show ?thesis by simp
qed

theorem Set_Get_expiry_boundary_witness:
  "0 < Unix 5900000000 \<and> 0 < 2 * Second
   \<and> snd (Get (Set (NewCache::nat Cache) 5900000000 ''k'' (Iface 1) [2 * Second])
             (Add 5900000000 (2 * Second)) ''k'') = (nil, False)
   \<and> snd (Get (Set (NewCache::nat Cache) 5900000000 ''k'' (Iface 1) [2 * Second])
             (Add 5900000000 Second) ''k'') = (Iface 1, True)"
proof -
  have h: "0 < Unix 5900000000" "0 < 2 * Second"
    by (simp_all add: Unix_def Second_def Millisecond_def Nanosecond_def)
  from Set_Get_expiry_boundary [OF h, of "NewCache::nat Cache" "''k''" "Iface 1" "[]" "2 * Second"]
    Set_Get_expiry_boundary [OF h, of "NewCache::nat Cache" "''k''" "Iface 1" "[]" "Second"]
    h
  show ?thesis by (simp add: Unix_def Add_def Second_eq)
qed

subsection \<open>Keys\<close>

text \<open>
  C6. Keys returns exactly the keys of the table, each once, expired or not: a key whose
  positive expiration has passed is among them as long as its item is in the table, and
  such a state is reached from a new cache (one Set with a ttl of a second, read a minute
  later, when Get reports the key not found).
\<close>

theorem Keys_unfiltered:
  "set (Keys c) = {k. DAList.lookup (items c) k \<noteq> None}
   \<and> distinct (Keys c)
   \<and> (DAList.lookup (items c) k = Some item \<and> 0 < Expiration item \<and> Expiration item \<le> Unix t
        \<longrightarrow> k \<in> set (Keys c))
   \<and> (\<exists>evs w item.
         run evs (NewWorld :: 'v World) = Inr w
         \<and> DAList.lookup (items (cache w)) ''k'' = Some item
         \<and> 0 < Expiration item \<and> Expiration item \<le> Unix 60000000000
         \<and> snd (Get (cache w) 60000000000 ''k'') = (nil, False)
         \<and> ''k'' \<in> set (Keys (cache w)))"
proof -
  have keys: "set (Keys c) = {k. DAList.lookup (items c) k \<noteq> None}"
    using keys_lookup [of _ "items c"] by (auto simp: Keys_eq)
  have dist: "distinct (Keys c)"
    by (simp add: Keys_eq)
  let ?w = "\<lparr>cache = Set (NewCache :: 'v Cache) 5000000000 ''k'' nil [Second],
             cleanup = True, deleting = []\<rparr>"
  let ?item = "\<lparr>Value = nil :: 'v interface, Expiration = 6\<rparr>"
  have r: "run [CallSet 5000000000 ''k'' nil [Second]] (NewWorld :: 'v World) = Inr ?w"
    by (simp add: NewWorld_def)
  have l: "DAList.lookup (items (cache ?w)) ''k'' = Some ?item"
    by (simp add: Set_def NewCache_def Unix_def Add_def Second_eq)
  have e: "0 < Expiration ?item \<and> Expiration ?item \<le> Unix 60000000000"
    by (simp add: Unix_def)
  have g: "snd (Get (cache ?w) 60000000000 ''k'') = (nil, False)"
    using l e by (simp add: Get_def)
  have m: "''k'' \<in> set (Keys (cache ?w))"
    by (simp add: Keys_eq Set_def NewCache_def update.rep_eq empty.rep_eq)
  from r l e g m have ex: "\<exists>evs w item.
         run evs (NewWorld :: 'v World) = Inr w
         \<and> DAList.lookup (items (cache w)) ''k'' = Some item
         \<and> 0 < Expiration item \<and> Expiration item \<le> Unix 60000000000
         \<and> snd (Get (cache w) 60000000000 ''k'') = (nil, False)
         \<and> ''k'' \<in> set (Keys (cache w))"
    by blast
  from keys dist ex show ?thesis
    by auto
qed

theorem Keys_unfiltered_witness:
  "DAList.lookup (items (Set (NewCache :: nat Cache) 5000000000 ''k'' (Iface 1) [Second])) ''k''
     = Some \<lparr>Value = Iface 1, Expiration = 6\<rparr>
   \<and> 6 \<le> Unix 60000000000
   \<and> snd (Get (Set (NewCache :: nat Cache) 5000000000 ''k'' (Iface 1) [Second]) 60000000000 ''k'')
     = (nil, False)
   \<and> ''k'' \<in> set (Keys (Set (NewCache :: nat Cache) 5000000000 ''k'' (Iface 1) [Second]))"
proof -
  let ?c = "Set (NewCache :: nat Cache) 5000000000 ''k'' (Iface 1) [Second]"
  let ?item = "\<lparr>Value = Iface (1::nat), Expiration = 6\<rparr>"
  have l: "DAList.lookup (items ?c) ''k'' = Some ?item"
    by (simp add: Set_def NewCache_def Unix_def Add_def Second_eq)
  have u: "6 \<le> Unix 60000000000"
    by (simp add: Unix_def)
  have g: "snd (Get ?c 60000000000 ''k'') = (nil, False)"
    using l u by (simp add: Get_def)
  from Keys_unfiltered [of ?c "''k''" ?item 60000000000, THEN conjunct2, THEN conjunct2,
      THEN conjunct1] l u
  have "''k'' \<in> set (Keys ?c)"
    by simp
  with l u g show ?thesis
    by (intro conjI)
qed

subsection \<open>The sweep\<close>

text \<open>
  C4. A sweep reads the clock once. Its first loop collects, from the table as it is,
  exactly the keys whose item has a positive expiration less than or equal to that reading,
  in Unix seconds; its second loop deletes those keys from the table. In the table it
  leaves, these keys are absent and every other item, in particular every item with
  expiration 0, is as before, in the same order; the channel is untouched.
\<close>

theorem deleteExpired_sweep:
  "set (collectExpired (Unix t) (DAList.impl_of (items c)) [])
     = {k. \<exists>item. DAList.lookup (items c) k = Some item
                  \<and> 0 < Expiration item \<and> Expiration item \<le> Unix t}
   \<and> deleteExpired c t
     = c\<lparr>items := deleteKeys (collectExpired (Unix t) (DAList.impl_of (items c)) []) (items c)\<rparr>
   \<and> DAList.lookup (items (deleteExpired c t)) k
     = (case DAList.lookup (items c) k of
          None \<Rightarrow> None
        | Some item \<Rightarrow>
            if 0 < Expiration item \<and> Expiration item \<le> Unix t then None else Some item)
   \<and> DAList.impl_of (items (deleteExpired c t))
     = filter (\<lambda>(key, item). \<not> (0 < Expiration item \<and> Expiration item \<le> Unix t))
         (DAList.impl_of (items c))
   \<and> stopCleanup (deleteExpired c t) = stopCleanup c"
proof -
  have "DAList.impl_of (items (deleteExpired c t))
          = filter (\<lambda>(key, item). key \<notin> set (collectExpired (Unix t) (DAList.impl_of (items c)) []))
              (DAList.impl_of (items c))"
    by (simp add: deleteExpired_def Let_def impl_of_deleteKeys)
  also have "\<dots> = filter (\<lambda>(key, item). \<not> (0 < Expiration item \<and> Expiration item \<le> Unix t))
                     (DAList.impl_of (items c))"
  proof (rule filter_cong [OF refl])
    fix x assume x: "x \<in> set (DAList.impl_of (items c))"
    obtain key item where kv: "x = (key, item)" by (cases x)
    from x kv have "DAList.lookup (items c) key = Some item"
      by (simp add: lookup.rep_eq)
    then show "(case x of (key, item) \<Rightarrow> key \<notin> set (collectExpired (Unix t) (DAList.impl_of (items c)) []))
               = (case x of (key, item) \<Rightarrow> \<not> (0 < Expiration item \<and> Expiration item \<le> Unix t))"
      by (simp add: kv collectExpired_set)
  qed
  finally have entries: "DAList.impl_of (items (deleteExpired c t))
     = filter (\<lambda>(key, item). \<not> (0 < Expiration item \<and> Expiration item \<le> Unix t))
         (DAList.impl_of (items c))" .
  have two_phase: "deleteExpired c t
     = c\<lparr>items := deleteKeys (collectExpired (Unix t) (DAList.impl_of (items c)) []) (items c)\<rparr>"
    by (simp add: deleteExpired_def Let_def)
  show ?thesis
    by (intro conjI collectExpired_set two_phase lookup_deleteExpired entries
        stopCleanup_deleteExpired)
qed

theorem deleteExpired_sweep_witness:
  "DAList.impl_of (items (deleteExpired
      (Set (Set (Set (NewCache::nat Cache) 5000000000 ''a'' (Iface 1) [2 * Second])
                5000000000 ''b'' (Iface 2) [])
           5000000000 ''c'' (Iface 3) [3 * Second])
      7999999999))
   = [(''b'', \<lparr>Value = Iface 2, Expiration = 0\<rparr>), (''c'', \<lparr>Value = Iface 3, Expiration = 8\<rparr>)]"
proof -
  let ?c = "Set (Set (Set (NewCache::nat Cache) 5000000000 ''a'' (Iface 1) [2 * Second])
                     5000000000 ''b'' (Iface 2) [])
                5000000000 ''c'' (Iface 3) [3 * Second]"
  have c: "DAList.impl_of (items ?c)
             = [(''a'', \<lparr>Value = Iface 1, Expiration = 7\<rparr>),
                (''b'', \<lparr>Value = Iface 2, Expiration = 0\<rparr>),
                (''c'', \<lparr>Value = Iface 3, Expiration = 8\<rparr>)]"
    by (simp add: Set_def NewCache_def Unix_def Add_def Second_eq update.rep_eq empty.rep_eq)
  have "DAList.impl_of (items (deleteExpired ?c 7999999999))
          = filter (\<lambda>(key, item). \<not> (0 < Expiration item \<and> Expiration item \<le> Unix 7999999999))
              (DAList.impl_of (items ?c))"
    by (rule deleteExpired_sweep [of 7999999999 ?c "''a''",
          THEN conjunct2, THEN conjunct2, THEN conjunct2, THEN conjunct1])
  then show ?thesis
    by (simp only: c) (simp add: Unix_def)
qed

subsection \<open>Close and the cleanup goroutine\<close>

text \<open>
  C7, as stated: a single Close succeeds and causes the loop of the goroutine to exit and
  perform no further sweeps. It fails when a tick is waiting at the select that follows the
  Close and the select takes it: the Close has succeeded, the key set with a ttl of a
  second is in the table, and the sweep that follows deletes it while the goroutine stays
  in its loop.
\<close>

theorem Close_sweep_after_counterexample:
  "run [CallSet 5000000000 ''k'' (Iface 1) [Second], CallClose] (NewWorld :: int World)
     = Inr \<lparr>cache = (Set NewCache 5000000000 ''k'' (Iface 1) [Second])\<lparr>stopCleanup := Closed\<rparr>,
            cleanup = True, deleting = []\<rparr>
   \<and> Keys ((Set (NewCache :: int Cache) 5000000000 ''k'' (Iface 1) [Second])\<lparr>stopCleanup := Closed\<rparr>)
     = [''k'']
   \<and> run [CallSet 5000000000 ''k'' (Iface 1) [Second], CallClose, Select True True 60000000000]
         (NewWorld :: int World)
     = Inr \<lparr>cache = \<lparr>items = DAList.empty, stopCleanup = Closed\<rparr>, cleanup = True, deleting = []\<rparr>"
proof -
  let ?c = "Set (NewCache :: int Cache) 5000000000 ''k'' (Iface 1) [Second]"
  let ?cc = "?c\<lparr>stopCleanup := Closed\<rparr>"
  let ?w1 = "\<lparr>cache = ?c, cleanup = True, deleting = []\<rparr>"
  let ?w2 = "\<lparr>cache = ?cc, cleanup = True, deleting = []\<rparr>"
  let ?w3 = "\<lparr>cache = \<lparr>items = DAList.empty :: (string, int CacheItem) alist,
                       stopCleanup = Closed\<rparr>,
              cleanup = True, deleting = []\<rparr>"
  have s1: "step (CallSet 5000000000 ''k'' (Iface 1) [Second]) (NewWorld :: int World) = Inr ?w1"
    by (simp add: NewWorld_def)
  have close: "Close ?c = Inr ?cc"
    by (simp add: Close_def close_chan_def Set_def NewCache_def)
  then have s2: "step CallClose ?w1 = Inr ?w2"
    by simp
  have i: "DAList.impl_of (items ?c) = [(''k'', \<lparr>Value = Iface 1, Expiration = 6\<rparr>)]"
    by (simp add: Set_def NewCache_def update.rep_eq empty.rep_eq Unix_def Add_def Second_eq)
  have "items (deleteExpired ?cc 60000000000) = DAList.empty"
    by (simp add: alist_eq_iff deleteExpired_def Let_def impl_of_deleteKeys delete.rep_eq
        empty.rep_eq i Unix_def)
  then have sweep: "deleteExpired ?cc 60000000000 = \<lparr>items = DAList.empty, stopCleanup = Closed\<rparr>"
    by (simp add: deleteExpired_def Let_def Set_def NewCache_def)
  have "stopCleanup ?cc = Closed"
    by simp
  then have s3: "step (Select True True 60000000000) ?w2 = Inr ?w3"
    by (simp add: startCleanup_def selectCase_def sweep)
  have r2: "run [CallSet 5000000000 ''k'' (Iface 1) [Second], CallClose] (NewWorld :: int World)
              = Inr ?w2"
    by (simp only: run.simps s1 s2 sum.case)
  have r3: "run [CallSet 5000000000 ''k'' (Iface 1) [Second], CallClose,
                 Select True True 60000000000] (NewWorld :: int World) = Inr ?w3"
    by (simp only: run.simps s1 s2 s3 sum.case)
  have k2: "Keys ?cc = [''k'']"
    by (simp add: Keys_eq i)
  from r2 k2 r3 show ?thesis
    by (intro conjI)
qed

text \<open>
  C7, amended. Close on a cache whose channel is open succeeds and closes it; a second
  Close panics. While the channel is open the goroutine stays in its loop. Once the channel
  is closed, an evaluation of the select takes the stop case and the goroutine leaves the
  loop without sweeping, unless a tick is waiting and the select takes the tick, in
  which case it sweeps once more and stays in the loop. After the goroutine has left the
  loop it never enters it again and its events change nothing: the process runs as if they
  were not there.
\<close>

theorem Close_stops_cleanup:
  "(stopCleanup c = Open \<longrightarrow> Close c = Inr (c\<lparr>stopCleanup := Closed\<rparr>))
   \<and> (Close c = Inr c' \<longrightarrow> Close c' = Inl CloseOfClosedChannel)
   \<and> run [CallClose, CallClose] w = Inl CloseOfClosedChannel
   \<and> (cleanup w \<and> stopCleanup (cache w) = Open \<longrightarrow> cleanup (startCleanup tick pick t w))
   \<and> (cleanup w \<and> stopCleanup (cache w) = Closed \<and> \<not> (tick \<and> pick) \<longrightarrow>
        startCleanup tick pick t w = w\<lparr>cleanup := False\<rparr>)
   \<and> (cleanup w \<and> stopCleanup (cache w) = Closed \<and> tick \<and> pick \<longrightarrow>
        startCleanup tick pick t w = w\<lparr>cache := deleteExpired (cache w) t\<rparr>)
   \<and> (\<not> cleanup w \<longrightarrow> startCleanup tick pick t w = w)
   \<and> (\<not> cleanup w \<longrightarrow> run evs w = run (filter (\<lambda>e. \<not> isSelect e) evs) w)
   \<and> (\<not> cleanup w \<and> run evs w = Inr w' \<longrightarrow> \<not> cleanup w')"
proof -
  have 1: "stopCleanup c = Open \<longrightarrow> Close c = Inr (c\<lparr>stopCleanup := Closed\<rparr>)"
    by (simp add: Close_def close_chan_def)
  have 2: "Close c = Inr c' \<longrightarrow> Close c' = Inl CloseOfClosedChannel"
    by (cases "stopCleanup c") (auto simp: Close_def close_chan_def)
  have 3: "run [CallClose, CallClose] w = Inl CloseOfClosedChannel"
    by (cases "stopCleanup (cache w)") (simp_all add: Close_def close_chan_def)
  have 4: "cleanup w \<and> stopCleanup (cache w) = Open \<longrightarrow> cleanup (startCleanup tick pick t w)"
    by (simp add: startCleanup_def selectCase_def)
  have 5: "cleanup w \<and> stopCleanup (cache w) = Closed \<and> \<not> (tick \<and> pick) \<longrightarrow>
        startCleanup tick pick t w = w\<lparr>cleanup := False\<rparr>"
    by (auto simp: startCleanup_def selectCase_def)
  have 6: "cleanup w \<and> stopCleanup (cache w) = Closed \<and> tick \<and> pick \<longrightarrow>
        startCleanup tick pick t w = w\<lparr>cache := deleteExpired (cache w) t\<rparr>"
    by (simp add: startCleanup_def selectCase_def)
  have 7: "\<not> cleanup w \<longrightarrow> startCleanup tick pick t w = w"
    by (simp add: startCleanup_def)
  have 8: "\<not> cleanup w \<longrightarrow> run evs w = run (filter (\<lambda>e. \<not> isSelect e) evs) w"
    using run_without_selects [of w evs] by blast
  have 9: "\<not> cleanup w \<and> run evs w = Inr w' \<longrightarrow> \<not> cleanup w'"
    using run_stopped [of w evs w'] by blast
  from 1 2 3 4 5 6 7 8 9 show ?thesis
    by (intro conjI)
qed

theorem Close_stops_cleanup_witness:
  "stopCleanup (NewCache :: int Cache) = Open
   \<and> Close (NewCache :: int Cache) = Inr \<lparr>items = DAList.empty, stopCleanup = Closed\<rparr>
   \<and> Close \<lparr>items = DAList.empty :: (string, int CacheItem) alist, stopCleanup = Closed\<rparr>
       = Inl CloseOfClosedChannel
   \<and> cleanup (startCleanup True True 9000000000 (NewWorld :: int World))
   \<and> run [CallClose, Select False True 9000000000] (NewWorld :: int World)
       = Inr \<lparr>cache = \<lparr>items = DAList.empty, stopCleanup = Closed\<rparr>, cleanup = False,
              deleting = []\<rparr>
   \<and> startCleanup True True 9000000000
        \<lparr>cache = \<lparr>items = DAList.empty :: (string, int CacheItem) alist, stopCleanup = Closed\<rparr>,
         cleanup = True, deleting = []\<rparr>
       = \<lparr>cache = \<lparr>items = DAList.empty, stopCleanup = Closed\<rparr>, cleanup = True, deleting = []\<rparr>
   \<and> run [Select True True 9000000000, CallSet 9000000000 ''k'' nil [], Select False True 9000000000]
          \<lparr>cache = \<lparr>items = DAList.empty :: (string, int CacheItem) alist, stopCleanup = Closed\<rparr>,
           cleanup = False, deleting = []\<rparr>
       = run [CallSet 9000000000 ''k'' nil []]
          \<lparr>cache = \<lparr>items = DAList.empty :: (string, int CacheItem) alist, stopCleanup = Closed\<rparr>,
           cleanup = False, deleting = []\<rparr>"
proof -
  let ?closed = "\<lparr>items = DAList.empty :: (string, int CacheItem) alist, stopCleanup = Closed\<rparr>"
  let ?w1 = "\<lparr>cache = ?closed, cleanup = True, deleting = []\<rparr>"
  let ?w2 = "\<lparr>cache = ?closed, cleanup = False, deleting = []\<rparr>"
  let ?evs = "[Select True True 9000000000, CallSet 9000000000 ''k'' nil [],
               Select False True 9000000000] :: int event list"
  note th = Close_stops_cleanup [of "NewCache :: int Cache" ?closed "NewWorld :: int World"
      True True 9000000000 "[]" "NewWorld :: int World"]
  note th1 = Close_stops_cleanup [of "NewCache :: int Cache" ?closed ?w1 False True 9000000000
      "[]" ?w1]
  note th2 = Close_stops_cleanup [of "NewCache :: int Cache" ?closed ?w1 True True 9000000000
      "[]" ?w1]
  note th3 = Close_stops_cleanup [of "NewCache :: int Cache" ?closed ?w2 True True 9000000000
      ?evs ?w2]
  have o: "stopCleanup (NewCache :: int Cache) = Open"
    by (simp add: NewCache_def)
  from th [THEN conjunct1] o have a: "Close (NewCache :: int Cache) = Inr ?closed"
    by (simp add: NewCache_def)
  from th [THEN conjunct2, THEN conjunct1] a have b: "Close ?closed = Inl CloseOfClosedChannel"
    by simp
  from th [THEN conjunct2, THEN conjunct2, THEN conjunct2, THEN conjunct1]
  have c: "cleanup (startCleanup True True 9000000000 (NewWorld :: int World))"
    by (simp add: NewWorld_def NewCache_def)
  from th1 [THEN conjunct2, THEN conjunct2, THEN conjunct2, THEN conjunct2, THEN conjunct1]
  have "startCleanup False True 9000000000 ?w1 = ?w2"
    by simp
  with a have d: "run [CallClose, Select False True 9000000000] (NewWorld :: int World) = Inr ?w2"
    by (simp add: NewWorld_def)
  have sweep: "deleteExpired ?closed 9000000000 = ?closed"
    by (simp add: deleteExpired_def empty.rep_eq)
  from th2 [THEN conjunct2, THEN conjunct2, THEN conjunct2, THEN conjunct2, THEN conjunct2,
      THEN conjunct1]
  have e: "startCleanup True True 9000000000 ?w1 = ?w1"
    by (simp add: sweep)
  from th3 [THEN conjunct2, THEN conjunct2, THEN conjunct2, THEN conjunct2, THEN conjunct2,
      THEN conjunct2, THEN conjunct2, THEN conjunct1]
  have f: "run ?evs ?w2 = run [CallSet 9000000000 ''k'' nil []] ?w2"
    by simp
  from o a b c d e f show ?thesis
    by (intro conjI)
qed

subsection \<open>Items with no expiration\<close>

text \<open>
  C8. No operation other than a Delete of its key, a Clear or a Set of its key removes
  an item with expiration 0. The code breaks it: a call of Get reads an expired item
  and releases the read lock, another goroutine sets the key with no ttl, and the first
  call goes on to its Delete, which removes the new item. No Delete, Set or Clear follows
  the Set, and a later Get does not find the key.
\<close>

theorem Get_race_removes_no_ttl_item:
  "run [CallSet 5000000000 ''k'' (Iface 1) [Second], GetRead 60000000000 ''k'',
        CallSet 60000000000 ''k'' (Iface 2) []] (NewWorld :: int World)
     = Inr \<lparr>cache = Set (Set NewCache 5000000000 ''k'' (Iface 1) [Second])
                        60000000000 ''k'' (Iface 2) [],
            cleanup = True, deleting = [''k'']\<rparr>
   \<and> DAList.lookup (items (Set (Set (NewCache :: int Cache) 5000000000 ''k'' (Iface 1) [Second])
                                 60000000000 ''k'' (Iface 2) [])) ''k''
     = Some \<lparr>Value = Iface 2, Expiration = 0\<rparr>
   \<and> \<not> removes ''k'' (GetDelete ''k'' :: int event)
   \<and> run [CallSet 5000000000 ''k'' (Iface 1) [Second], GetRead 60000000000 ''k'',
          CallSet 60000000000 ''k'' (Iface 2) [], GetDelete ''k''] (NewWorld :: int World)
     = Inr \<lparr>cache = \<lparr>items = DAList.empty, stopCleanup = Open\<rparr>, cleanup = True, deleting = []\<rparr>
   \<and> Get \<lparr>items = DAList.empty :: (string, int CacheItem) alist, stopCleanup = Open\<rparr>
         61000000000 ''k''
     = (\<lparr>items = DAList.empty, stopCleanup = Open\<rparr>, nil, False)"
proof -
  let ?c1 = "Set (NewCache :: int Cache) 5000000000 ''k'' (Iface 1) [Second]"
  let ?c2 = "Set ?c1 60000000000 ''k'' (Iface 2) []"
  let ?c3 = "\<lparr>items = DAList.empty :: (string, int CacheItem) alist, stopCleanup = Open\<rparr>"
  let ?w1 = "\<lparr>cache = ?c1, cleanup = True, deleting = []\<rparr>"
  let ?w2 = "\<lparr>cache = ?c1, cleanup = True, deleting = [''k'']\<rparr>"
  let ?w3 = "\<lparr>cache = ?c2, cleanup = True, deleting = [''k'']\<rparr>"
  let ?w4 = "\<lparr>cache = ?c3, cleanup = True, deleting = []\<rparr>"
  have s1: "step (CallSet 5000000000 ''k'' (Iface 1) [Second]) (NewWorld :: int World) = Inr ?w1"
    by (simp add: NewWorld_def)
  have "Get_expired ?c1 60000000000 ''k''"
    by (simp add: Get_expired_def Set_def NewCache_def Unix_def Add_def Second_eq)
  then have s2: "step (GetRead 60000000000 ''k'') ?w1 = Inr ?w2"
    by simp
  have s3: "step (CallSet 60000000000 ''k'' (Iface 2) []) ?w2 = Inr ?w3"
    by simp
  have l: "DAList.lookup (items ?c2) ''k'' = Some \<lparr>Value = Iface 2, Expiration = 0\<rparr>"
    by (simp add: Set_def)
  have "items (Delete ?c2 ''k'') = DAList.empty"
    by (simp add: alist_eq_iff Delete_def Set_def NewCache_def delete.rep_eq update.rep_eq
        empty.rep_eq)
  then have d: "Delete ?c2 ''k'' = ?c3"
    by (simp add: Delete_def Set_def NewCache_def)
  have s4: "step (GetDelete ''k'') ?w3 = Inr ?w4"
    by (simp add: d)
  have r3: "run [CallSet 5000000000 ''k'' (Iface 1) [Second], GetRead 60000000000 ''k'',
                 CallSet 60000000000 ''k'' (Iface 2) []] (NewWorld :: int World) = Inr ?w3"
    by (simp only: run.simps s1 s2 s3 sum.case)
  have r4: "run [CallSet 5000000000 ''k'' (Iface 1) [Second], GetRead 60000000000 ''k'',
                 CallSet 60000000000 ''k'' (Iface 2) [], GetDelete ''k''] (NewWorld :: int World)
              = Inr ?w4"
    by (simp only: run.simps s1 s2 s3 s4 sum.case)
  have n: "\<not> removes ''k'' (GetDelete ''k'' :: int event)"
    by simp
  have g: "Get ?c3 61000000000 ''k'' = (?c3, nil, False)"
    by (simp add: Get_def)
  from r3 l n r4 g show ?thesis
    by (intro conjI)
qed

end
